theory Spec2Isabelle
  imports Complex_Main "HOL-Library.Word"
begin

section \<open>JavaScript values used by server.mjs and upload.mjs\<close>

text \<open>
  A JavaScript string is a sequence of UTF-16 code units; \<open>s.length\<close> counts them.
  The model keeps a string as the list of its code units, so that the bar characters
  U+2588 and U+2591 of \<open>makeBar\<close> are one element each, as they are one unit of
  \<open>.length\<close> in the source. \<open>str\<close> reads an ASCII literal as such a list.
\<close>

type_synonym jsstring = "nat list"

definition str :: "string \<Rightarrow> jsstring" where
  "str s = map of_char s"

text \<open>
  \<open>String.prototype.trim\<close> removes, at both ends, the code units that ECMAScript calls
  WhiteSpace or LineTerminator: TAB, LF, VT, FF, CR, SP, NBSP, U+1680, U+2000..U+200A,
  U+2028, U+2029, U+202F, U+205F, U+3000 and U+FEFF.
\<close>

definition is_js_space :: "nat \<Rightarrow> bool" where
  "is_js_space c \<longleftrightarrow>
     (9 \<le> c \<and> c \<le> 13) \<or> c = 32 \<or> c = 160 \<or> c = 5760 \<or> (8192 \<le> c \<and> c \<le> 8202) \<or>
     c = 8232 \<or> c = 8233 \<or> c = 8239 \<or> c = 8287 \<or> c = 12288 \<or> c = 65279"

definition trim :: "jsstring \<Rightarrow> jsstring" where
  "trim s = rev (dropWhile is_js_space (rev (dropWhile is_js_space s)))"

section \<open>server.mjs: the receive endpoint\<close>

text \<open>
  \<open>path.basename(p)\<close> of Node's POSIX path module, called without a suffix. Node scans
  \<open>p\<close> from its last code unit backwards: the slashes (code unit 47) met before any
  other unit are skipped, the first other unit marks the end of the result, and the next
  slash met after it marks the start. An all-slash or empty path gives the empty string.
\<close>

definition basename :: "jsstring \<Rightarrow> jsstring" where
  "basename p = rev (takeWhile (\<lambda>c. c \<noteq> 47) (dropWhile (\<lambda>c. c = 47) (rev p)))"

text \<open>\<open>safeBasename(name)\<close>: \<open>String(name)\<close> is the identity on the string it is called with.\<close>

definition safeBasename :: "jsstring \<Rightarrow> jsstring" where
  "safeBasename name = basename name"

text \<open>
  \<open>req.query.fileName\<close> as Express hands it over: \<open>undefined\<close> when the parameter is
  absent, a string, or (for repeated or bracketed parameters) an array or an object,
  which are truthy and whose \<open>typeof\<close> is not \<open>"string"\<close>.
\<close>

datatype query_value =
    QUndefined
  | QString jsstring
  | QArray "jsstring list"
  | QObject "(jsstring \<times> jsstring) list"

text \<open>
  What the handler does to the file system, in order. \<open>path.join(outputDir, fileName)\<close>
  is kept as the pair of its arguments.
\<close>

datatype fs_op =
    ExistsSync jsstring
  | MkdirSync jsstring
  | CreateWriteStream jsstring jsstring

text \<open>
  The synchronous part of the handler either sends a response at once, or starts piping
  the request body to the file named by the sanitized name, or throws: the constructor
  behind \<open>fs.createWriteStream\<close> validates its path at once and throws a TypeError
  (\<open>ERR_INVALID_ARG_VALUE\<close>) when the path holds a NUL code unit, and Express answers
  an exception of the handler with status 500. What happens once the piping has started
  (the 200 on \<open>finish\<close>, the 500 of the two \<open>error\<close> listeners) is later than this part.
\<close>

datatype reply =
    Send nat jsstring
  | Piping jsstring
  | Throws500

text \<open>\<open>ensureOutputDir()\<close>; whether the directory exists is read from the environment.\<close>

definition ensureOutputDir :: "jsstring \<Rightarrow> bool \<Rightarrow> fs_op list" where
  "ensureOutputDir outputDir dir_exists =
     (if \<not> dir_exists then [ExistsSync outputDir, MkdirSync outputDir]
      else [ExistsSync outputDir])"

definition msg_missing :: jsstring where
  "msg_missing = str ''Missing required query param '' @ [34] @ str ''fileName'' @ [34]"

definition msg_invalid :: jsstring where
  "msg_invalid = str ''Invalid '' @ [34] @ str ''fileName'' @ [34]"

text \<open>
  \<open>app.post("/upload", ...)\<close> up to and including \<open>fs.createWriteStream\<close>: the reply
  and the file-system operations performed. The first test is
  \<open>!rawName || typeof rawName !== "string" || !rawName.trim()\<close>: a string is falsy
  exactly when it is empty, every other value of the parameter fails the \<open>typeof\<close> test.
  \<open>outputDir\<close> is \<open>path.resolve(process.cwd(), "output")\<close>, the absolute path of a
  directory under the working directory of the process, which holds no NUL; so
  \<open>path.join(outputDir, fileName)\<close> holds a NUL exactly when \<open>fileName\<close> does, and
  then \<open>fs.createWriteStream\<close> throws, after \<open>ensureOutputDir()\<close> has run and before
  any file is opened.
\<close>

definition upload_handler :: "jsstring \<Rightarrow> bool \<Rightarrow> query_value \<Rightarrow> reply \<times> fs_op list" where
  "upload_handler outputDir dir_exists rawName =
     (case rawName of
        QString s \<Rightarrow>
          if s = [] \<or> trim s = [] then (Send 400 msg_missing, [])
          else
            (let fileName = safeBasename (trim s) in
             if fileName = [] then (Send 400 msg_invalid, [])
             else if 0 \<in> set fileName then
               (Throws500, ensureOutputDir outputDir dir_exists)
             else (Piping fileName,
                   ensureOutputDir outputDir dir_exists @
                   [CreateWriteStream outputDir fileName]))
      | _ \<Rightarrow> (Send 400 msg_missing, []))"

text \<open>The segments of a path: the pieces between slashes.\<close>

fun segments :: "jsstring \<Rightarrow> jsstring list" where
  "segments [] = [[]]"
| "segments (c # cs) =
     (if c = 47 then [] # segments cs
      else (case segments cs of seg # rest \<Rightarrow> (c # seg) # rest | [] \<Rightarrow> [[c]]))"

section \<open>upload.mjs: numbers\<close>

text \<open>
  A JavaScript number is an IEEE double. The model takes the byte counts and the
  millisecond clock as \<open>int\<close> (doubles are exact on integers up to \<open>2 ^ 53\<close>) and the
  rates, fractions and durations as \<open>real\<close>, so every quotient and product below is the
  exact one, without the rounding of a double; the three values that are not real
  numbers are kept apart.
\<close>

datatype jsnum = Num real | PosInf | NegInf | NaN

text \<open>The comparison \<open>a <= b\<close> of JavaScript: false as soon as one side is \<open>NaN\<close>.\<close>

fun jsnum_le :: "jsnum \<Rightarrow> jsnum \<Rightarrow> bool" where
  "jsnum_le NaN _ = False"
| "jsnum_le _ NaN = False"
| "jsnum_le NegInf _ = True"
| "jsnum_le _ PosInf = True"
| "jsnum_le (Num a) (Num b) = (a \<le> b)"
| "jsnum_le _ _ = False"

text \<open>\<open>Math.round\<close>: the nearest integer, a tie going up.\<close>

definition Math_round :: "real \<Rightarrow> int" where
  "Math_round x = \<lfloor>x + 1 / 2\<rfloor>"

datatype js_error = RangeError

text \<open>\<open>s.repeat(count)\<close> throws a RangeError on a negative count.\<close>

definition js_repeat :: "jsstring \<Rightarrow> int \<Rightarrow> js_error + jsstring" where
  "js_repeat s count =
     (if count < 0 then Inl RangeError else Inr (concat (replicate (nat count) s)))"

text \<open>
  \<open>String(n)\<close> for an integer: its decimal digits, with a minus sign when negative
  (JavaScript writes integers below \<open>10 ^ 21\<close> this way).
\<close>

fun dec_digits :: "nat \<Rightarrow> jsstring" where
  "dec_digits n = (if n < 10 then [48 + n] else dec_digits (n div 10) @ [48 + n mod 10])"

definition String_of_int :: "int \<Rightarrow> jsstring" where
  "String_of_int n = (if n < 0 then 45 # dec_digits (nat (- n)) else dec_digits (nat n))"

text \<open>
  \<open>s.padStart(targetLength, fill)\<close>: \<open>s\<close> itself when it is long enough or \<open>fill\<close> is
  empty, otherwise \<open>fill\<close> repeated and cut to the missing length, then \<open>s\<close>.
\<close>

definition padStart :: "jsstring \<Rightarrow> nat \<Rightarrow> jsstring \<Rightarrow> jsstring" where
  "padStart s targetLength fill =
     (if targetLength \<le> length s \<or> fill = [] then s
      else take (targetLength - length s)
             (concat (replicate (targetLength - length s) fill)) @ s)"

text \<open>
  Reading a string of decimal digits back as a number, to say what a rendered field
  stands for.
\<close>

definition is_digit :: "nat \<Rightarrow> bool" where
  "is_digit c \<longleftrightarrow> 48 \<le> c \<and> c \<le> 57"

definition read_dec :: "jsstring \<Rightarrow> nat" where
  "read_dec ds = foldl (\<lambda>acc d. 10 * acc + (d - 48)) 0 ds"

section \<open>upload.mjs: formatHMS and makeBar\<close>

definition formatHMS :: "jsnum \<Rightarrow> jsstring" where
  "formatHMS totalSeconds =
     (let t = (case totalSeconds of Num x \<Rightarrow> if x < 0 then 0 else x | _ \<Rightarrow> 0);
          s = \<lfloor>t\<rfloor>;
          hours = s div 3600;
          minutes = (s mod 3600) div 60;
          seconds = s mod 60;
          hh = padStart (String_of_int hours) 2 (str ''0'');
          mm = padStart (String_of_int minutes) 2 (str ''0'');
          ss = padStart (String_of_int seconds) 2 (str ''0'')
      in hh @ str '':'' @ mm @ str '':'' @ ss)"

definition filledChar :: jsstring where
  "filledChar = [9608]"

definition emptyChar :: jsstring where
  "emptyChar = [9617]"

definition makeBar :: "real \<Rightarrow> int \<Rightarrow> js_error + jsstring" where
  "makeBar progress01 width =
     (let clamped = max 0 (min 1 progress01);
          filled = Math_round (clamped * real_of_int width);
          empty = width - filled
      in case js_repeat filledChar filled of
           Inl e \<Rightarrow> Inl e
         | Inr f \<Rightarrow>
             (case js_repeat emptyChar empty of
                Inl e \<Rightarrow> Inl e
              | Inr m \<Rightarrow> Inr (str ''['' @ f @ m @ str '']'')))"

section \<open>upload.mjs: the counting stream\<close>

type_synonym buffer = "8 word list"

text \<open>
  The \<open>transform\<close> of \<open>counter\<close>: \<open>uploadedBytes += chunk.length; cb(null, chunk)\<close>.
  It returns the new counter and the chunk handed downstream.
\<close>

definition transform :: "int \<Rightarrow> buffer \<Rightarrow> int \<times> buffer" where
  "transform uploadedBytes chunk = (uploadedBytes + int (length chunk), chunk)"

text \<open>
  The stream calls \<open>transform\<close> once per chunk, in order. \<open>counter\<close> lists, for each
  chunk read, the chunk pushed downstream and the value of \<open>uploadedBytes\<close> after it.
\<close>

fun counter :: "int \<Rightarrow> buffer list \<Rightarrow> (buffer \<times> int) list" where
  "counter uploadedBytes [] = []"
| "counter uploadedBytes (chunk # rest) =
     (case transform uploadedBytes chunk of
        (uploadedBytes', out) \<Rightarrow> (out, uploadedBytes') # counter uploadedBytes' rest)"

section \<open>upload.mjs: the ticker\<close>

definition BAR_WIDTH :: int where
  "BAR_WIDTH = 30"

definition SPEED_ALPHA :: real where
  "SPEED_ALPHA = 0.2"

text \<open>The variables the ticker keeps between ticks.\<close>

record estimator =
  lastBytes :: int
  lastTime :: int
  emaBytesPerSec :: real

text \<open>Their values when \<open>setInterval\<close> is called at clock value \<open>t0\<close>.\<close>

definition estimator_init :: "int \<Rightarrow> estimator" where
  "estimator_init t0 = \<lparr>lastBytes = 0, lastTime = t0, emaBytesPerSec = 0\<rparr>"

text \<open>\<open>inst\<close> of a tick at clock value \<open>now\<close> (milliseconds) that reads \<open>uploadedBytes\<close>.\<close>

definition inst_rate :: "estimator \<Rightarrow> int \<Rightarrow> int \<Rightarrow> real" where
  "inst_rate s now uploadedBytes =
     (let dt = real_of_int (now - lastTime s) / 1000;
          dBytes = uploadedBytes - lastBytes s
      in real_of_int dBytes / dt)"

text \<open>The first block of the ticker callback: the update of the smoothed rate.\<close>

definition ticker_rate :: "estimator \<Rightarrow> int \<Rightarrow> int \<Rightarrow> estimator" where
  "ticker_rate s now uploadedBytes =
     (let dt = real_of_int (now - lastTime s) / 1000 in
      if dt > 0 then
        (let inst = inst_rate s now uploadedBytes in
         \<lparr>lastBytes = uploadedBytes,
          lastTime = now,
          emaBytesPerSec =
            (if emaBytesPerSec s = 0 then inst
             else SPEED_ALPHA * inst + (1 - SPEED_ALPHA) * emaBytesPerSec s)\<rparr>)
      else s)"

text \<open>
  A run of ticks: each sample is the pair of the clock value and of \<open>uploadedBytes\<close>
  that the tick reads. \<open>valid_insts\<close> lists the instantaneous rates of the ticks that
  pass the \<open>dt > 0\<close> guard.
\<close>

fun ticker_run :: "estimator \<Rightarrow> (int \<times> int) list \<Rightarrow> estimator" where
  "ticker_run s [] = s"
| "ticker_run s ((now, uploadedBytes) # rest) =
     ticker_run (ticker_rate s now uploadedBytes) rest"

fun valid_insts :: "estimator \<Rightarrow> (int \<times> int) list \<Rightarrow> real list" where
  "valid_insts s [] = []"
| "valid_insts s ((now, uploadedBytes) # rest) =
     (if lastTime s < now then [inst_rate s now uploadedBytes] else []) @
     valid_insts (ticker_rate s now uploadedBytes) rest"

text \<open>A run in which every tick passes the guard and measures the same rate \<open>R\<close>.\<close>

fun constant_rate :: "real \<Rightarrow> estimator \<Rightarrow> (int \<times> int) list \<Rightarrow> bool" where
  "constant_rate R s [] = True"
| "constant_rate R s ((now, uploadedBytes) # rest) =
     (lastTime s < now \<and> inst_rate s now uploadedBytes = R \<and>
      constant_rate R (ticker_rate s now uploadedBytes) rest)"

definition progress01 :: "int \<Rightarrow> int \<Rightarrow> real" where
  "progress01 totalBytes uploadedBytes =
     (if totalBytes > 0 then real_of_int uploadedBytes / real_of_int totalBytes else 1)"

definition etaSec :: "int \<Rightarrow> int \<Rightarrow> real \<Rightarrow> jsnum" where
  "etaSec totalBytes uploadedBytes ema =
     (let remainingBytes = max 0 (totalBytes - uploadedBytes) in
      if ema > 1 then Num (real_of_int remainingBytes / ema) else PosInf)"

section \<open>upload.mjs: the status line\<close>

text \<open>
  \<open>process.stdout\<close>: \<open>columns\<close> is \<open>undefined\<close> (here \<open>None\<close>) when the stream is not a
  terminal; \<open>columns || 0\<close> reads both \<open>undefined\<close> and 0 as 0.
\<close>

record stdout =
  isTTY :: bool
  columns :: "nat option"

definition columns_or_0 :: "stdout \<Rightarrow> nat" where
  "columns_or_0 out = (case columns out of None \<Rightarrow> 0 | Some c \<Rightarrow> c)"

datatype term_out = ConsoleLog jsstring | StdoutWrite jsstring

text \<open>The prefix \<open>"\r\x1b[2K"\<close>: carriage return, then the escape sequence that clears the line.\<close>

definition clear_line :: jsstring where
  "clear_line = [13, 27] @ str ''[2K''"

text \<open>
  \<open>writeStatusLine(line)\<close> with the module variable \<open>lastRenderedLen\<close> passed in and
  returned.
\<close>

definition writeStatusLine :: "stdout \<Rightarrow> nat \<Rightarrow> jsstring \<Rightarrow> term_out \<times> nat" where
  "writeStatusLine out lastRenderedLen line =
     (if \<not> isTTY out then (ConsoleLog line, lastRenderedLen)
      else
        (let cols = columns_or_0 out;
             out1 = (if cols > 0 \<and> int (length line) > int cols - 1
                     then take (cols - 1) line else line);
             padLen = nat (max 0 (int lastRenderedLen - int (length out1)));
             padded = out1 @ replicate padLen 32
         in (StdoutWrite (clear_line @ padded), length out1)))"

text \<open>
  The end of the ticker callback, from \<open>const cols\<close> on; \<open>suffix\<close> is the text built
  before it from the percentage, the sizes, the speeds and the duration.
\<close>

definition ticker_barWidth :: "stdout \<Rightarrow> jsstring \<Rightarrow> int" where
  "ticker_barWidth out suffix =
     (let cols = (if isTTY out then columns_or_0 out else 0) in
      if cols > 0 then
        (let maxBarWidth = int cols - int (length suffix) - 3 in
         max 5 (min BAR_WIDTH maxBarWidth))
      else BAR_WIDTH)"

definition ticker_render ::
  "stdout \<Rightarrow> nat \<Rightarrow> real \<Rightarrow> jsstring \<Rightarrow> js_error + (term_out \<times> nat)" where
  "ticker_render out lastRenderedLen p suffix =
     (case makeBar p (ticker_barWidth out suffix) of
        Inl e \<Rightarrow> Inl e
      | Inr bar \<Rightarrow> Inr (writeStatusLine out lastRenderedLen (bar @ str '' '' @ suffix)))"

text \<open>The number of columns a write occupies: what follows the clearing prefix.\<close>

fun written_width :: "term_out \<Rightarrow> nat" where
  "written_width (StdoutWrite w) = length w - length clear_line"
| "written_width (ConsoleLog w) = length w"

section \<open>The receive endpoint: sanitized names and rejected requests\<close>

lemma trim_Nil: "trim [] = []"
  by (simp add: trim_def)

lemma basename_no_slash: "47 \<notin> set (basename p)"
  unfolding basename_def
  by (metis (mono_tags, lifting) set_rev set_takeWhileD)

lemma segments_no_slash: "47 \<notin> set n \<Longrightarrow> segments n = [n]"
  by (induction n) simp_all

lemma handler_string:
  "trim s \<noteq> [] \<Longrightarrow>
     upload_handler d e (QString s) =
       (if basename (trim s) = [] then (Send 400 msg_invalid, [])
        else if 0 \<in> set (basename (trim s)) then (Throws500, ensureOutputDir d e)
        else (Piping (basename (trim s)),
              ensureOutputDir d e @ [CreateWriteStream d (basename (trim s))]))"
  by (auto simp: upload_handler_def safeBasename_def trim_Nil Let_def)

lemma handler_passwd:
  "fst (upload_handler d e (QString (str ''../../etc/passwd''))) = Piping (str ''passwd'')"
  by (simp add: upload_handler_def safeBasename_def Let_def basename_def trim_def str_def
      is_js_space_def)

lemma handler_c_bin:
  "fst (upload_handler d e (QString (str ''a/b/c.bin''))) = Piping (str ''c.bin'')"
  by (simp add: upload_handler_def safeBasename_def Let_def basename_def trim_def str_def
      is_js_space_def)

text \<open>
  Claim C1, as the code has it: for a \<open>fileName\<close> that is a string with something left
  after trimming, and whose last segment after trimming is not \<open>..\<close>, the handler
  answers 400 when nothing is left of the trimmed name once its directories are removed,
  throws before any file is opened when what is left holds a NUL, and otherwise writes
  under exactly the basename of the \<^emph>\<open>trimmed\<close> name; that basename holds no path
  separator and no parent-directory segment; the names \<open>../../etc/passwd\<close> and
  \<open>a/b/c.bin\<close> are written under \<open>passwd\<close> and \<open>c.bin\<close>.
\<close>

theorem sanitized_name_is_basename_of_trimmed:
  "(trim s \<noteq> [] \<and> basename (trim s) \<noteq> str ''..'' \<longrightarrow>
     upload_handler d e (QString s) =
       (if basename (trim s) = [] then (Send 400 msg_invalid, [])
        else if 0 \<in> set (basename (trim s)) then (Throws500, ensureOutputDir d e)
        else (Piping (basename (trim s)),
              ensureOutputDir d e @ [CreateWriteStream d (basename (trim s))]))
     \<and> 47 \<notin> set (basename (trim s))
     \<and> str ''..'' \<notin> set (segments (basename (trim s))))
   \<and> fst (upload_handler d e (QString (str ''../../etc/passwd''))) = Piping (str ''passwd'')
   \<and> fst (upload_handler d e (QString (str ''a/b/c.bin''))) = Piping (str ''c.bin'')"
proof (intro conjI impI)
  assume A: "trim s \<noteq> [] \<and> basename (trim s) \<noteq> str ''..''"
  then show "upload_handler d e (QString s) =
       (if basename (trim s) = [] then (Send 400 msg_invalid, [])
        else if 0 \<in> set (basename (trim s)) then (Throws500, ensureOutputDir d e)
        else (Piping (basename (trim s)),
              ensureOutputDir d e @ [CreateWriteStream d (basename (trim s))]))"
    using handler_string [of s d e] by blast
  show "47 \<notin> set (basename (trim s))"
    by (rule basename_no_slash)
  from A show "str ''..'' \<notin> set (segments (basename (trim s)))"
    by (auto simp: segments_no_slash [OF basename_no_slash])
next
  show "fst (upload_handler d e (QString (str ''../../etc/passwd''))) = Piping (str ''passwd'')"
    by (rule handler_passwd)
  show "fst (upload_handler d e (QString (str ''a/b/c.bin''))) = Piping (str ''c.bin'')"
    by (rule handler_c_bin)
qed

theorem sanitized_name_is_basename_of_trimmed_witness:
  "trim (str '' a b/c.bin '') \<noteq> []
   \<and> basename (trim (str '' a b/c.bin '')) \<noteq> str ''..''
   \<and> upload_handler (str ''/srv/output'') False (QString (str '' a b/c.bin '')) =
     (Piping (str ''c.bin''),
      [ExistsSync (str ''/srv/output''), MkdirSync (str ''/srv/output''),
       CreateWriteStream (str ''/srv/output'') (str ''c.bin'')])
   \<and> trim (str ''x/a'' @ [0] @ str ''b'') \<noteq> []
   \<and> basename (trim (str ''x/a'' @ [0] @ str ''b'')) \<noteq> str ''..''
   \<and> upload_handler (str ''/srv/output'') True (QString (str ''x/a'' @ [0] @ str ''b'')) =
     (Throws500, [ExistsSync (str ''/srv/output'')])"
  using
    sanitized_name_is_basename_of_trimmed
      [of "str '' a b/c.bin ''" "str ''/srv/output''" False]
    sanitized_name_is_basename_of_trimmed
      [of "str ''x/a'' @ [0] @ str ''b''" "str ''/srv/output''" True]
  by (simp add: trim_def str_def is_js_space_def basename_def ensureOutputDir_def)

text \<open>
  The claim as the specification words it fails: a name with a trailing space is written
  under the basename of the trimmed name, which is not the basename of the requested
  name.
\<close>

theorem sanitized_name_not_basename_of_raw:
  "fst (upload_handler (str ''/srv/output'') True (QString (str ''report.txt ''))) =
     Piping (str ''report.txt'')
   \<and> basename (str ''report.txt '') \<noteq> str ''report.txt''"
  by (simp add: upload_handler_def safeBasename_def trim_def str_def is_js_space_def
      basename_def Let_def)

text \<open>
  \<open>path.basename\<close> leaves the name \<open>..\<close> as it is, and \<open>safeBasename\<close>, whose comment
  says that it prevents path traversal, does not test for it: the sanitized name can be
  the parent-directory segment itself, and is handed to \<open>fs.createWriteStream\<close>.
\<close>

lemma safeBasename_keeps_dotdot:
  "fst (upload_handler (str ''/srv/output'') True (QString (str ''..''))) = Piping (str ''..'')
   \<and> str ''..'' \<in> set (segments (str ''..''))"
  by (simp add: upload_handler_def safeBasename_def trim_def str_def is_js_space_def
      basename_def Let_def)

text \<open>
  Claim C2: when \<open>fileName\<close> is absent, is not a string, or is empty or only white space,
  the handler answers 400 with the message about the missing parameter and performs no
  file-system operation at all; when a string survives trimming but its basename is
  empty, it answers 400 with the message about the invalid name, again without any
  file-system operation.
\<close>

theorem bad_fileName_is_400_without_fs:
  "upload_handler d e QUndefined = (Send 400 msg_missing, [])
   \<and> upload_handler d e (QArray xs) = (Send 400 msg_missing, [])
   \<and> upload_handler d e (QObject kvs) = (Send 400 msg_missing, [])
   \<and> (trim s = [] \<longrightarrow> upload_handler d e (QString s) = (Send 400 msg_missing, []))
   \<and> (trim t \<noteq> [] \<and> safeBasename (trim t) = [] \<longrightarrow>
        upload_handler d e (QString t) = (Send 400 msg_invalid, []))
   \<and> msg_missing \<noteq> [] \<and> msg_invalid \<noteq> []"
  by (auto simp: upload_handler_def trim_Nil msg_missing_def msg_invalid_def str_def)

theorem bad_fileName_is_400_without_fs_witness:
  "trim (str '' '') = [] \<and> trim (str '' // '') \<noteq> []
   \<and> safeBasename (trim (str '' // '')) = []
   \<and> upload_handler (str ''/srv/output'') False (QString (str '' '')) =
       (Send 400 msg_missing, [])
   \<and> upload_handler (str ''/srv/output'') False (QString (str '' // '')) =
       (Send 400 msg_invalid, [])"
  using bad_fileName_is_400_without_fs
    [of "str ''/srv/output''" False _ _ "str '' ''" "str '' // ''"]
  by (simp add: trim_def str_def is_js_space_def basename_def safeBasename_def)

section \<open>The counting stream\<close>

lemma counter_chunks: "map fst (counter u cs) = cs"
  by (induction cs arbitrary: u) (simp_all add: transform_def)

lemma counter_values:
  "map snd (counter u cs) =
     map (\<lambda>k. u + int (sum_list (map length (take (Suc k) cs)))) [0..<length cs]"
proof (induction cs arbitrary: u)
  case Nil
  then show ?case by simp
next
  case (Cons c cs)
  have "[0..<length (c # cs)] = 0 # map Suc [0..<length cs]"
    by (simp add: upt_conv_Cons map_Suc_upt del: upt_Suc)
  then show ?case
    using Cons.IH [of "u + int (length c)"]
    by (simp add: transform_def comp_def del: upt_Suc)
qed

lemma counter_sorted: "sorted (u # map snd (counter u cs))"
proof (induction cs arbitrary: u)
  case Nil
  then show ?case by simp
next
  case (Cons c cs)
  have "sorted ((u + int (length c)) # map snd (counter (u + int (length c)) cs))"
    by (rule Cons.IH)
  then show ?case
    by (auto simp: transform_def)
qed

lemma counter_last:
  "last (u # map snd (counter u cs)) = u + int (sum_list (map length cs))"
proof (induction cs arbitrary: u)
  case Nil
  then show ?case by simp
next
  case (Cons c cs)
  show ?case
    using Cons.IH [of "u + int (length c)"]
    by (simp add: transform_def)
qed

text \<open>
  Claim C3: for every finite sequence of chunks, the counting stream hands on the same
  chunks in the same order with the same contents; after the chunk of index \<open>k\<close> the
  counter \<open>uploadedBytes\<close> is the sum of the lengths of the chunks up to and including
  it; so the counter, which starts at 0, never decreases and ends at the total length.
\<close>

theorem counter_passes_chunks_and_sums_lengths:
  "map fst (counter 0 cs) = cs
   \<and> map snd (counter 0 cs) =
       map (\<lambda>k. int (sum_list (map length (take (Suc k) cs)))) [0..<length cs]
   \<and> sorted (0 # map snd (counter 0 cs))
   \<and> last (0 # map snd (counter 0 cs)) = int (sum_list (map length cs))"
  using counter_chunks [of 0 cs] counter_values [of 0 cs] counter_sorted [of 0 cs]
    counter_last [of 0 cs]
  by simp

section \<open>The estimated time\<close>

text \<open>
  Claim C6, as the code has it: above the floor of 1 byte per second the estimate is
  the remaining bytes, \<^emph>\<open>never counted below zero\<close>, divided by the smoothed rate, which
  is \<open>(totalBytes - uploadedBytes) / smoothed\<close> as long as no more than \<open>totalBytes\<close> went
  through; at or below the floor it is infinite; and for a constant rate that is not
  negative, a larger count of bytes done never gives a larger estimate.
\<close>

theorem etaSec_clamped_quotient_or_infinite:
  "etaSec tot done ema =
     (if ema > 1 then Num (real_of_int (max 0 (tot - done)) / ema) else PosInf)
   \<and> (done \<le> tot \<and> ema > 1 \<longrightarrow> etaSec tot done ema = Num (real_of_int (tot - done) / ema))
   \<and> (d1 \<le> d2 \<and> 0 \<le> r \<longrightarrow> jsnum_le (etaSec tot d2 r) (etaSec tot d1 r))"
  by (auto simp: etaSec_def Let_def divide_right_mono max_def)

theorem etaSec_clamped_quotient_or_infinite_witness:
  "(70::int) \<le> 100 \<and> (2::real) > 1 \<and> etaSec 100 70 2 = Num 15
   \<and> (40::int) \<le> 70 \<and> (0::real) \<le> 2 \<and> jsnum_le (etaSec 100 70 2) (etaSec 100 40 2)"
  using etaSec_clamped_quotient_or_infinite [of 100 70 2 40 70 2]
  by auto

text \<open>
  With more bytes through the stream than the size read at the start (the file grew),
  the estimate is 0 and not the negative quotient of the specification's formula.
\<close>

theorem etaSec_not_plain_quotient:
  "etaSec 10 20 2 = Num 0 \<and> etaSec 10 20 2 \<noteq> Num (real_of_int (10 - 20) / 2)"
  by (simp add: etaSec_def)

section \<open>The bar\<close>

lemma round_bounds:
  assumes "0 \<le> w"
  shows "0 \<le> Math_round (max 0 (min 1 f) * real_of_int w)"
    and "Math_round (max 0 (min 1 f) * real_of_int w) \<le> w"
proof -
  let ?c = "max 0 (min 1 f)"
  have c: "0 \<le> ?c" "?c \<le> 1" by auto
  have "0 \<le> ?c * real_of_int w" using c assms by simp
  then show "0 \<le> Math_round (?c * real_of_int w)"
    unfolding Math_round_def by linarith
  have "?c * real_of_int w \<le> 1 * real_of_int w"
    using c assms by (intro mult_right_mono) auto
  then have "?c * real_of_int w + 1 / 2 < real_of_int (w + 1)" by simp
  then show "Math_round (?c * real_of_int w) \<le> w"
    unfolding Math_round_def by linarith
qed

lemma makeBar_nonneg_width:
  assumes "0 \<le> w"
  shows "makeBar f w =
        Inr ([91] @ replicate (nat (Math_round (max 0 (min 1 f) * real_of_int w))) 9608
                  @ replicate (nat (w - Math_round (max 0 (min 1 f) * real_of_int w))) 9617
                  @ [93])"
proof -
  let ?filled = "Math_round (max 0 (min 1 f) * real_of_int w)"
  have "\<not> ?filled < 0" and "\<not> w - ?filled < 0"
    using round_bounds [OF assms, of f] by simp_all
  then show ?thesis
    by (simp add: makeBar_def Let_def js_repeat_def filledChar_def emptyChar_def str_def)
qed

text \<open>
  Claim C8: for every bar width \<open>w \<ge> 0\<close> and every fraction \<open>f\<close>, \<open>makeBar\<close> returns
  (without a RangeError) an opening bracket, \<open>round(clamp(f, 0, 1) * w)\<close> filled
  characters, \<open>w\<close> minus that many empty characters, and a closing bracket, both counts
  lying between 0 and \<open>w\<close>; the fraction itself is \<open>uploadedBytes / totalBytes\<close> when
  \<open>totalBytes > 0\<close> and 1 when \<open>totalBytes = 0\<close>.
\<close>

theorem makeBar_filled_is_rounded_fraction:
  "(0 \<le> w \<longrightarrow>
      makeBar f w =
        Inr ([91] @ replicate (nat (Math_round (max 0 (min 1 f) * real_of_int w))) 9608
                  @ replicate (nat (w - Math_round (max 0 (min 1 f) * real_of_int w))) 9617
                  @ [93])
      \<and> 0 \<le> Math_round (max 0 (min 1 f) * real_of_int w)
      \<and> Math_round (max 0 (min 1 f) * real_of_int w) \<le> w)
   \<and> (tot > 0 \<longrightarrow> progress01 tot uploaded = real_of_int uploaded / real_of_int tot)
   \<and> progress01 0 uploaded = 1"
  using round_bounds [of w f] makeBar_nonneg_width [of w f]
  by (simp add: progress01_def)

theorem makeBar_filled_is_rounded_fraction_witness:
  "(0::int) \<le> 10
   \<and> makeBar (1 / 4) 10 = Inr ([91] @ replicate 3 9608 @ replicate 7 9617 @ [93])
   \<and> (8::int) > 0 \<and> progress01 8 2 = 1 / 4"
  using makeBar_filled_is_rounded_fraction [of 10 "1 / 4" 8 2]
  by (simp add: Math_round_def)

section \<open>The clock format\<close>

declare dec_digits.simps [simp del]

lemma dec_digits_digits: "list_all is_digit (dec_digits n)"
proof (induction n rule: dec_digits.induct)
  case (1 n)
  show ?case
  proof (cases "n < 10")
    case True
    then show ?thesis by (subst dec_digits.simps) (simp add: is_digit_def)
  next
    case False
    have "n mod 10 < 10" by simp
    then have "is_digit (48 + n mod 10)" unfolding is_digit_def by linarith
    with False "1.IH" show ?thesis by (subst dec_digits.simps) simp
  qed
qed

lemma read_dec_snoc: "read_dec (ds @ [d]) = 10 * read_dec ds + (d - 48)"
  by (simp add: read_dec_def)

lemma read_dec_dec_digits: "read_dec (dec_digits n) = n"
proof (induction n rule: dec_digits.induct)
  case (1 n)
  show ?case
  proof (cases "n < 10")
    case True
    then show ?thesis by (subst dec_digits.simps) (simp add: read_dec_def)
  next
    case False
    with "1.IH" show ?thesis
      by (subst dec_digits.simps) (simp add: read_dec_snoc)
  qed
qed

lemma dec_digits_length: "1 \<le> length (dec_digits n)"
  by (subst dec_digits.simps) simp

lemma dec_digits_small: "n < 10 \<Longrightarrow> dec_digits n = [48 + n]"
  by (subst dec_digits.simps) simp

lemma dec_digits_length_small: 
  assumes "n < 100" shows "length (dec_digits n) \<le> 2"
proof (cases "n < 10")
  case True
  then show ?thesis by (simp add: dec_digits_small)
next
  case False
  have "n div 10 < 10" using assms by simp
  then have "length (dec_digits (n div 10)) = 1" by (simp add: dec_digits_small)
  with False show ?thesis by (subst dec_digits.simps) simp
qed

lemma read_dec_zeros: "read_dec (replicate k 48 @ ds) = read_dec ds"
proof -
  have "foldl (\<lambda>acc d. 10 * acc + (d - 48)) 0 (replicate k (48::nat)) = 0"
    by (induction k) simp_all
  then show ?thesis by (simp add: read_dec_def)
qed

lemma pad2_eq:
  "padStart ds 2 (str ''0'') = replicate (2 - length ds) 48 @ ds"
proof -
  have T: "take k (concat (replicate k [48::nat])) = replicate k 48" for k
    by (induction k) simp_all
  show ?thesis
    by (simp add: padStart_def str_def T)
qed

lemma field_digits:
  assumes "0 \<le> n"
  shows "list_all is_digit (padStart (String_of_int n) 2 (str ''0''))"
proof -
  have "list_all is_digit (replicate k 48 @ dec_digits m)" for k m
    using dec_digits_digits [of m] by (auto simp: list_all_iff is_digit_def)
  then show ?thesis
    using assms by (simp add: pad2_eq String_of_int_def)
qed

lemma field_length: "2 \<le> length (padStart ds 2 (str ''0''))"
  by (simp add: pad2_eq)

lemma field_value:
  assumes "0 \<le> n"
  shows "int (read_dec (padStart (String_of_int n) 2 (str ''0''))) = n"
  using assms by (simp add: pad2_eq String_of_int_def read_dec_zeros read_dec_dec_digits)

lemma field_length_small:
  assumes "0 \<le> n" "n < 100"
  shows "length (padStart (String_of_int n) 2 (str ''0'')) = 2"
proof -
  have "nat n < 100" using assms by simp
  from dec_digits_length_small [OF this] show ?thesis
    using assms by (simp add: pad2_eq String_of_int_def)
qed

lemma formatHMS_zero: "formatHMS (Num 0) = str ''00:00:00''"
  by (simp add: formatHMS_def padStart_def String_of_int_def str_def dec_digits_small)

lemma formatHMS_3661: "formatHMS (Num 3661) = str ''01:01:01''"
  by (simp add: formatHMS_def padStart_def String_of_int_def str_def dec_digits_small)

lemma formatHMS_other:
  "x < 0 \<Longrightarrow> formatHMS (Num x) = formatHMS (Num 0)"
  "formatHMS PosInf = formatHMS (Num 0)"
  "formatHMS NegInf = formatHMS (Num 0)"
  "formatHMS NaN = formatHMS (Num 0)"
  by (simp_all add: formatHMS_def)

lemma formatHMS_nonneg:
  fixes y :: real
  assumes y: "0 \<le> y"
  shows "(let hh = padStart (String_of_int (\<lfloor>y\<rfloor> div 3600)) 2 (str ''0'');
             mm = padStart (String_of_int ((\<lfloor>y\<rfloor> mod 3600) div 60)) 2 (str ''0'');
             ss = padStart (String_of_int (\<lfloor>y\<rfloor> mod 60)) 2 (str ''0'')
         in formatHMS (Num y) = hh @ str '':'' @ mm @ str '':'' @ ss
            \<and> list_all is_digit hh \<and> list_all is_digit mm \<and> list_all is_digit ss
            \<and> 2 \<le> length hh \<and> length mm = 2 \<and> length ss = 2
            \<and> read_dec mm < 60 \<and> read_dec ss < 60
            \<and> int (read_dec hh) * 3600 + int (read_dec mm) * 60 + int (read_dec ss) = \<lfloor>y\<rfloor>)"
proof -
  let ?s = "\<lfloor>y\<rfloor>"
  let ?h = "?s div 3600" and ?m = "(?s mod 3600) div 60" and ?c = "?s mod 60"
  have s: "0 \<le> ?s" using y by simp
  have h: "0 \<le> ?h" using s by (simp add: pos_imp_zdiv_nonneg_iff)
  have "?s mod 3600 \<le> 3599" by simp
  then have "?m \<le> 3599 div 60" by (intro zdiv_mono1) simp_all
  then have m60: "?m < 60" by simp
  have m: "0 \<le> ?m" "?m < 60" "?m < 100"
    using m60 by (simp_all add: pos_imp_zdiv_nonneg_iff)
  have c: "0 \<le> ?c" "?c < 60" "?c < 100" by simp_all
  have F: "formatHMS (Num y) =
      padStart (String_of_int ?h) 2 (str ''0'') @ str '':'' @
      padStart (String_of_int ?m) 2 (str ''0'') @ str '':'' @
      padStart (String_of_int ?c) 2 (str ''0'')"
    using y by (simp add: formatHMS_def Let_def)
  have rm: "int (read_dec (padStart (String_of_int ?m) 2 (str ''0''))) = ?m"
    by (rule field_value [OF m(1)])
  have rc: "int (read_dec (padStart (String_of_int ?c) 2 (str ''0''))) = ?c"
    by (rule field_value [OF c(1)])
  have rh: "int (read_dec (padStart (String_of_int ?h) 2 (str ''0''))) = ?h"
    by (rule field_value [OF h])
  have "(?s mod 3600) mod 60 = ?c"
    by (simp add: mod_mod_cancel)
  then have "?m * 60 + ?c = ?s mod 3600"
    using div_mult_mod_eq [of "?s mod 3600" 60] by simp
  moreover have "?h * 3600 + ?s mod 3600 = ?s"
    by (rule div_mult_mod_eq)
  ultimately have sum: "?h * 3600 + ?m * 60 + ?c = ?s"
    by linarith
  have lt: "read_dec (padStart (String_of_int ?m) 2 (str ''0'')) < 60" 
       "read_dec (padStart (String_of_int ?c) 2 (str ''0'')) < 60"
    using rm rc m(2) c(2) by linarith+
  show ?thesis
    unfolding Let_def
    using F field_digits [OF h] field_digits [OF m(1)] field_digits [OF c(1)]
      field_length [of "String_of_int ?h"] field_length_small [OF m(1) m(3)]
      field_length_small [OF c(1) c(3)] lt sum rm rc rh
    by simp
qed

text \<open>
  Claim C9: \<open>formatHMS\<close> maps 0 to \<open>00:00:00\<close>, 3661 to \<open>01:01:01\<close>, and every negative
  or non-finite input to \<open>00:00:00\<close>; for a finite input that is not negative the result
  is three fields of decimal digits separated by colons, the hours on at least two
  characters, the minutes and the seconds on exactly two, and read back as numbers they
  are the hours, the minutes below 60 and the seconds below 60 of the input floored to
  whole seconds.
\<close>

theorem formatHMS_boundaries_and_fields:
  "formatHMS (Num 0) = str ''00:00:00''
   \<and> formatHMS (Num 3661) = str ''01:01:01''
   \<and> (x < 0 \<longrightarrow> formatHMS (Num x) = str ''00:00:00'')
   \<and> formatHMS PosInf = str ''00:00:00''
   \<and> formatHMS NegInf = str ''00:00:00''
   \<and> formatHMS NaN = str ''00:00:00''
   \<and> (0 \<le> y \<longrightarrow>
        (let hh = padStart (String_of_int (\<lfloor>y\<rfloor> div 3600)) 2 (str ''0'');
             mm = padStart (String_of_int ((\<lfloor>y\<rfloor> mod 3600) div 60)) 2 (str ''0'');
             ss = padStart (String_of_int (\<lfloor>y\<rfloor> mod 60)) 2 (str ''0'')
         in formatHMS (Num y) = hh @ str '':'' @ mm @ str '':'' @ ss
            \<and> list_all is_digit hh \<and> list_all is_digit mm \<and> list_all is_digit ss
            \<and> 2 \<le> length hh \<and> length mm = 2 \<and> length ss = 2
            \<and> read_dec mm < 60 \<and> read_dec ss < 60
            \<and> int (read_dec hh) * 3600 + int (read_dec mm) * 60 + int (read_dec ss) = \<lfloor>y\<rfloor>))"
proof (intro conjI impI)
  show "formatHMS (Num 0) = str ''00:00:00''" by (rule formatHMS_zero)
  show "formatHMS (Num 3661) = str ''01:01:01''" by (rule formatHMS_3661)
  show "formatHMS (Num x) = str ''00:00:00''" if "x < 0"
    using that by (simp add: formatHMS_other formatHMS_zero)
  show "formatHMS PosInf = str ''00:00:00''" by (simp add: formatHMS_other formatHMS_zero)
  show "formatHMS NegInf = str ''00:00:00''" by (simp add: formatHMS_other formatHMS_zero)
  show "formatHMS NaN = str ''00:00:00''" by (simp add: formatHMS_other formatHMS_zero)
qed (rule formatHMS_nonneg)

theorem formatHMS_boundaries_and_fields_witness:
  "(- 5 :: real) < 0 \<and> formatHMS (Num (- 5)) = str ''00:00:00''
   \<and> (0::real) \<le> 7323.5 \<and> formatHMS (Num 7323.5) = str ''02:02:03''"
  using formatHMS_boundaries_and_fields [of "- 5" "7323.5"]
  by (simp add: padStart_def String_of_int_def str_def dec_digits_small Let_def)

section \<open>The rate estimator\<close>

lemma alpha: "SPEED_ALPHA = 1 / 5"
  by (simp add: SPEED_ALPHA_def)

lemma tick_skip: "\<not> lastTime s < now \<Longrightarrow> ticker_rate s now u = s"
  by (simp add: ticker_rate_def)

lemma tick_valid:
  "lastTime s < now \<Longrightarrow>
   ticker_rate s now u =
     \<lparr>lastBytes = u, lastTime = now,
      emaBytesPerSec =
        (if emaBytesPerSec s = 0 then inst_rate s now u
         else SPEED_ALPHA * inst_rate s now u + (1 - SPEED_ALPHA) * emaBytesPerSec s)\<rparr>"
  by (simp add: ticker_rate_def Let_def)

lemma inst_rate_eq:
  "inst_rate s now u = real_of_int (u - lastBytes s) / (real_of_int (now - lastTime s) / 1000)"
  by (simp add: inst_rate_def Let_def)

lemma inst_nonneg: "lastTime s < now \<Longrightarrow> lastBytes s \<le> u \<Longrightarrow> 0 \<le> inst_rate s now u"
  by (simp add: inst_rate_def Let_def)

lemma tick_nonneg:
  assumes "lastBytes s \<le> u" "0 \<le> emaBytesPerSec s"
  shows "0 \<le> emaBytesPerSec (ticker_rate s now u)"
proof (cases "lastTime s < now")
  case True
  from inst_nonneg [OF True assms(1)] assms(2) show ?thesis
    by (simp add: tick_valid [OF True] alpha)
next
  case False
  then show ?thesis using assms by (simp add: tick_skip)
qed

lemma tick_pos:
  assumes "lastBytes s \<le> u" "0 < emaBytesPerSec s"
  shows "0 < emaBytesPerSec (ticker_rate s now u)"
proof (cases "lastTime s < now")
  case True
  from inst_nonneg [OF True assms(1)] assms(2) show ?thesis
    by (simp add: tick_valid [OF True] alpha add_nonneg_pos)
next
  case False
  then show ?thesis using assms by (simp add: tick_skip)
qed

lemma tick_lastBytes:
  "lastBytes (ticker_rate s now u) = (if lastTime s < now then u else lastBytes s)"
  by (simp add: ticker_rate_def Let_def)

lemma sorted_step:
  assumes "sorted (lastBytes s # map snd ((now, u) # xs))"
  shows "lastBytes s \<le> u" and "sorted (lastBytes (ticker_rate s now u) # map snd xs)"
  using assms by (auto simp: tick_lastBytes)

lemma run_nonneg:
  "sorted (lastBytes s # map snd xs) \<Longrightarrow> 0 \<le> emaBytesPerSec s \<Longrightarrow>
   0 \<le> emaBytesPerSec (ticker_run s xs)"
proof (induction xs arbitrary: s)
  case Nil
  then show ?case by simp
next
  case (Cons x xs)
  obtain now u where x: "x = (now, u)" by (cases x)
  from Cons.prems(1) have a: "lastBytes s \<le> u"
    and b: "sorted (lastBytes (ticker_rate s now u) # map snd xs)"
    unfolding x by (rule sorted_step)+
  from Cons.IH [OF b tick_nonneg [OF a Cons.prems(2)]] show ?case
    by (simp add: x)
qed

lemma run_pos:
  "sorted (lastBytes s # map snd xs) \<Longrightarrow> 0 < emaBytesPerSec s \<Longrightarrow>
   0 < emaBytesPerSec (ticker_run s xs)"
proof (induction xs arbitrary: s)
  case Nil
  then show ?case by simp
next
  case (Cons x xs)
  obtain now u where x: "x = (now, u)" by (cases x)
  from Cons.prems(1) have a: "lastBytes s \<le> u"
    and b: "sorted (lastBytes (ticker_rate s now u) # map snd xs)"
    unfolding x by (rule sorted_step)+
  from Cons.IH [OF b tick_pos [OF a Cons.prems(2)]] show ?case
    by (simp add: x)
qed

lemma run_append: "ticker_run s (xs @ ys) = ticker_run (ticker_run s xs) ys"
  by (induction xs arbitrary: s) auto

lemma run_lastBytes:
  "sorted (lastBytes s # map snd (xs @ ys)) \<Longrightarrow>
   sorted (lastBytes (ticker_run s xs) # map snd ys)"
proof (induction xs arbitrary: s)
  case Nil
  then show ?case by simp
next
  case (Cons x xs)
  obtain now u where x: "x = (now, u)" by (cases x)
  from Cons.prems have "sorted (lastBytes (ticker_rate s now u) # map snd (xs @ ys))"
    unfolding x append_Cons by (rule sorted_step)
  from Cons.IH [OF this] show ?case by (simp add: x)
qed

lemma tick_zero:
  assumes "lastBytes s \<le> u" "0 \<le> emaBytesPerSec s"
    and "emaBytesPerSec (ticker_rate s now u) = 0"
  shows "emaBytesPerSec s = 0" and "lastTime s < now \<Longrightarrow> inst_rate s now u = 0"
proof -
  show e: "emaBytesPerSec s = 0"
  proof (rule ccontr)
    assume "emaBytesPerSec s \<noteq> 0"
    with assms(2) have "0 < emaBytesPerSec s" by simp
    from tick_pos [OF assms(1) this, of now] assms(3) show False by simp
  qed
  show "inst_rate s now u = 0" if "lastTime s < now"
    using assms(3) e by (simp add: tick_valid [OF that])
qed

lemma run_zero:
  "sorted (lastBytes s # map snd xs) \<Longrightarrow> 0 \<le> emaBytesPerSec s \<Longrightarrow>
   emaBytesPerSec (ticker_run s xs) = 0 \<Longrightarrow>
   emaBytesPerSec s = 0 \<and> (\<forall>r\<in>set (valid_insts s xs). r = 0)"
proof (induction xs arbitrary: s)
  case Nil
  then show ?case by simp
next
  case (Cons x xs)
  obtain now u where x: "x = (now, u)" by (cases x)
  from Cons.prems(1) have a: "lastBytes s \<le> u"
    and b: "sorted (lastBytes (ticker_rate s now u) # map snd xs)"
    unfolding x by (rule sorted_step)+
  have c: "0 \<le> emaBytesPerSec (ticker_rate s now u)"
    by (rule tick_nonneg [OF a Cons.prems(2)])
  from Cons.prems(3) have "emaBytesPerSec (ticker_run (ticker_rate s now u) xs) = 0"
    by (simp add: x)
  from Cons.IH [OF b c this]
  have z: "emaBytesPerSec (ticker_rate s now u) = 0"
    and r: "\<forall>r\<in>set (valid_insts (ticker_rate s now u) xs). r = 0" by simp_all
  from tick_zero [OF a Cons.prems(2) z] r show ?case
    by (auto simp: x)
qed

lemma run_stays_zero:
  "emaBytesPerSec s = 0 \<Longrightarrow> \<forall>r\<in>set (valid_insts s xs). r = 0 \<Longrightarrow>
   emaBytesPerSec (ticker_run s xs) = 0"
proof (induction xs arbitrary: s)
  case Nil
  then show ?case by simp
next
  case (Cons x xs)
  obtain now u where x: "x = (now, u)" by (cases x)
  have v: "valid_insts s (x # xs) =
      (if lastTime s < now then [inst_rate s now u] else []) @
      valid_insts (ticker_rate s now u) xs"
    unfolding x by (rule valid_insts.simps)
  have e: "emaBytesPerSec (ticker_rate s now u) = 0"
  proof (cases "lastTime s < now")
    case True
    then have "inst_rate s now u \<in> set (valid_insts s (x # xs))"
      unfolding v by simp
    with Cons.prems(2) have "inst_rate s now u = 0" by blast
    then show ?thesis
      unfolding tick_valid [OF True] using Cons.prems(1) by simp
  next
    case False
    then show ?thesis unfolding tick_skip [OF False] using Cons.prems(1) by simp
  qed
  have "set (valid_insts (ticker_rate s now u) xs) \<subseteq> set (valid_insts s (x # xs))"
    unfolding v by simp
  with Cons.prems(2) have r: "\<forall>r\<in>set (valid_insts (ticker_rate s now u) xs). r = 0"
    by blast
  have "ticker_run s (x # xs) = ticker_run (ticker_rate s now u) xs"
    unfolding x by (rule ticker_run.simps)
  with Cons.IH [OF e r] show ?case by simp
qed

text \<open>
  Claim C4, as the code has it. A tick whose clock value is not after the previous
  sample's leaves the three variables as they are. Any other tick measures
  \<open>inst = (uploadedBytes - lastBytes) / dt\<close> with \<open>dt\<close> in seconds, stores the new
  sample, and sets the smoothed rate to \<open>inst\<close> itself whenever the smoothed rate is
  exactly 0, and to \<open>alpha * inst + (1 - alpha) * smoothed\<close> with \<open>alpha = 0.2\<close> otherwise.
  For a byte counter that never decreases, the smoothed rate is 0 exactly as long as
  every measured rate was 0: the rate is set directly on the first valid sample and on
  every valid sample up to the first with a rate other than 0, and blended after that.
\<close>

theorem ticker_rate_seeds_while_zero_then_blends:
  "(\<not> lastTime s < now \<longrightarrow> ticker_rate s now u = s)
   \<and> (lastTime s < now \<longrightarrow>
        ticker_rate s now u =
          \<lparr>lastBytes = u, lastTime = now,
           emaBytesPerSec =
             (if emaBytesPerSec s = 0 then inst_rate s now u
              else SPEED_ALPHA * inst_rate s now u + (1 - SPEED_ALPHA) * emaBytesPerSec s)\<rparr>)
   \<and> inst_rate s now u =
        real_of_int (u - lastBytes s) / (real_of_int (now - lastTime s) / 1000)
   \<and> SPEED_ALPHA = 2 / 10
   \<and> (sorted (0 # map snd (xs @ [(t, b)])) \<and> lastTime (ticker_run (estimator_init t0) xs) < t \<longrightarrow>
        emaBytesPerSec (ticker_run (estimator_init t0) (xs @ [(t, b)])) =
          (if \<forall>r\<in>set (valid_insts (estimator_init t0) xs). r = 0
           then inst_rate (ticker_run (estimator_init t0) xs) t b
           else SPEED_ALPHA * inst_rate (ticker_run (estimator_init t0) xs) t b
                + (1 - SPEED_ALPHA) * emaBytesPerSec (ticker_run (estimator_init t0) xs)))"
proof (intro conjI impI)
  show "ticker_rate s now u = s" if "\<not> lastTime s < now"
    using that by (rule tick_skip)
  show "ticker_rate s now u =
          \<lparr>lastBytes = u, lastTime = now,
           emaBytesPerSec =
             (if emaBytesPerSec s = 0 then inst_rate s now u
              else SPEED_ALPHA * inst_rate s now u + (1 - SPEED_ALPHA) * emaBytesPerSec s)\<rparr>"
    if "lastTime s < now"
    using that by (rule tick_valid)
  show "inst_rate s now u =
        real_of_int (u - lastBytes s) / (real_of_int (now - lastTime s) / 1000)"
    by (rule inst_rate_eq)
  show "SPEED_ALPHA = 2 / 10" by (simp add: SPEED_ALPHA_def)
next
  let ?i = "estimator_init t0"
  let ?s = "ticker_run ?i xs"
  assume A: "sorted (0 # map snd (xs @ [(t, b)])) \<and> lastTime ?s < t"
  then have valid: "lastTime ?s < t" by simp
  have i0: "lastBytes ?i = 0" "emaBytesPerSec ?i = 0" by (simp_all add: estimator_init_def)
  from A have "sorted (lastBytes ?i # map snd xs)"
    by (simp add: i0 sorted_append)
  then have srt: "sorted (lastBytes ?i # map snd xs)" .
  have nn: "0 \<le> emaBytesPerSec ?i" by (simp add: i0)
  have zero_iff: "emaBytesPerSec ?s = 0 \<longleftrightarrow> (\<forall>r\<in>set (valid_insts ?i xs). r = 0)"
  proof
    assume "emaBytesPerSec ?s = 0"
    from run_zero [OF srt nn this] show "\<forall>r\<in>set (valid_insts ?i xs). r = 0" ..
  next
    assume "\<forall>r\<in>set (valid_insts ?i xs). r = 0"
    from run_stays_zero [OF i0(2) this] show "emaBytesPerSec ?s = 0" .
  qed
  have "ticker_run ?i (xs @ [(t, b)]) = ticker_rate ?s t b"
    by (simp add: run_append)
  then show "emaBytesPerSec (ticker_run ?i (xs @ [(t, b)])) =
          (if \<forall>r\<in>set (valid_insts ?i xs). r = 0
           then inst_rate ?s t b
           else SPEED_ALPHA * inst_rate ?s t b + (1 - SPEED_ALPHA) * emaBytesPerSec ?s)"
    using zero_iff by (simp add: tick_valid [OF valid])
qed

theorem ticker_rate_seeds_while_zero_then_blends_witness:
  "sorted (0 # map snd ([(1000::int, 0::int)] @ [(2000, 1000)]))
   \<and> lastTime (ticker_run (estimator_init 0) [(1000, 0)]) < 2000
   \<and> emaBytesPerSec (ticker_run (estimator_init 0) ([(1000, 0)] @ [(2000, 1000)])) = 1000
   \<and> \<not> lastTime (estimator_init 1000) < 1000
   \<and> ticker_rate (estimator_init 1000) 1000 5 = estimator_init 1000
   \<and> lastTime \<lparr>lastBytes = 0, lastTime = 0, emaBytesPerSec = 500\<rparr> < 1000
   \<and> ticker_rate \<lparr>lastBytes = 0, lastTime = 0, emaBytesPerSec = 500\<rparr> 1000 1000 =
       \<lparr>lastBytes = 1000, lastTime = 1000, emaBytesPerSec = 600\<rparr>"
proof -
  let ?s = "\<lparr>lastBytes = 0, lastTime = 0, emaBytesPerSec = 500\<rparr>"
  have a: "sorted (0 # map snd ([(1000::int, 0::int)] @ [(2000, 1000)]))"
    by simp
  have b: "lastTime (ticker_run (estimator_init 0) [(1000, 0)]) < 2000"
    by (simp add: estimator_init_def ticker_rate_def)
  have z: "\<forall>r\<in>set (valid_insts (estimator_init 0) [(1000, 0)]). r = 0"
    by (simp add: estimator_init_def inst_rate_def)
  have i: "inst_rate (ticker_run (estimator_init 0) [(1000, 0)]) 2000 1000 = 1000"
    by (simp add: estimator_init_def ticker_rate_def inst_rate_def)
  have c: "\<not> lastTime (estimator_init 1000) < 1000"
    by (simp add: estimator_init_def)
  have d: "lastTime ?s < 1000"
    by simp
  have j: "inst_rate ?s 1000 1000 = 1000"
    by (simp add: inst_rate_def)
  note T = ticker_rate_seeds_while_zero_then_blends
  from T [of ?s 0 0 "[(1000, 0)]" 2000 1000 0] a b
  have "emaBytesPerSec (ticker_run (estimator_init 0) ([(1000, 0)] @ [(2000, 1000)])) =
      (if \<forall>r\<in>set (valid_insts (estimator_init 0) [(1000, 0)]). r = 0
       then inst_rate (ticker_run (estimator_init 0) [(1000, 0)]) 2000 1000
       else SPEED_ALPHA * inst_rate (ticker_run (estimator_init 0) [(1000, 0)]) 2000 1000
            + (1 - SPEED_ALPHA) * emaBytesPerSec (ticker_run (estimator_init 0) [(1000, 0)]))"
    by blast
  also have "\<dots> = inst_rate (ticker_run (estimator_init 0) [(1000, 0)]) 2000 1000"
    by (rule if_P [OF z])
  also note i
  finally
  have 1: "emaBytesPerSec (ticker_run (estimator_init 0) ([(1000, 0)] @ [(2000, 1000)])) = 1000" .
  from T [of "estimator_init 1000" 1000 5] c
  have 2: "ticker_rate (estimator_init 1000) 1000 5 = estimator_init 1000"
    by blast
  from T [of ?s 1000 1000] d
  have "ticker_rate ?s 1000 1000 =
      \<lparr>lastBytes = 1000, lastTime = 1000,
       emaBytesPerSec =
         (if emaBytesPerSec ?s = 0 then inst_rate ?s 1000 1000
          else SPEED_ALPHA * inst_rate ?s 1000 1000 + (1 - SPEED_ALPHA) * emaBytesPerSec ?s)\<rparr>"
    by blast
  then have 3: "ticker_rate ?s 1000 1000 =
      \<lparr>lastBytes = 1000, lastTime = 1000, emaBytesPerSec = 600\<rparr>"
    by (simp add: j SPEED_ALPHA_def)
  from a b 1 c 2 d 3 show ?thesis
    by blast
qed

text \<open>
  The claim as the specification words it fails: the first valid sample measures a rate
  of 0 (nothing uploaded yet), so the second valid sample, a later one, sets the
  smoothed rate to its own rate of 1000 instead of blending it to 200.
\<close>

theorem later_valid_sample_not_blended:
  "lastTime (estimator_init 0) < 1000
   \<and> lastTime (ticker_run (estimator_init 0) [(1000, 0)]) < 2000
   \<and> emaBytesPerSec (ticker_run (estimator_init 0) [(1000, 0), (2000, 1000)]) = 1000
   \<and> SPEED_ALPHA * inst_rate (ticker_run (estimator_init 0) [(1000, 0)]) 2000 1000
       + (1 - SPEED_ALPHA) * emaBytesPerSec (ticker_run (estimator_init 0) [(1000, 0)]) = 200"
  by (simp add: estimator_init_def ticker_rate_def inst_rate_def SPEED_ALPHA_def)

lemma ema_step_error:
  assumes "lastTime s < now" "emaBytesPerSec s \<noteq> 0" "inst_rate s now u = R"
  shows "\<bar>emaBytesPerSec (ticker_rate s now u) - R\<bar> = (1 - SPEED_ALPHA) * \<bar>emaBytesPerSec s - R\<bar>"
proof -
  have "emaBytesPerSec (ticker_rate s now u) - R = (1 - SPEED_ALPHA) * (emaBytesPerSec s - R)"
    using assms by (simp add: tick_valid algebra_simps)
  moreover have "0 \<le> 1 - SPEED_ALPHA" by (simp add: SPEED_ALPHA_def)
  ultimately show ?thesis by (simp add: abs_mult)
qed

lemma ema_step_pos:
  assumes "lastTime s < now" "0 < emaBytesPerSec s" "inst_rate s now u = R" "0 < R"
  shows "0 < emaBytesPerSec (ticker_rate s now u)"
proof -
  have "0 < SPEED_ALPHA * R + (1 - SPEED_ALPHA) * emaBytesPerSec s"
    using assms(2,4) by (simp add: SPEED_ALPHA_def add_pos_pos)
  then show ?thesis using assms by (simp add: tick_valid)
qed

lemma ema_run_error:
  "0 < R \<Longrightarrow> 0 < emaBytesPerSec s \<Longrightarrow> constant_rate R s xs \<Longrightarrow>
   \<bar>emaBytesPerSec (ticker_run s xs) - R\<bar> = (1 - SPEED_ALPHA) ^ length xs * \<bar>emaBytesPerSec s - R\<bar>"
proof (induction xs arbitrary: s)
  case Nil
  then show ?case by simp
next
  case (Cons x xs)
  obtain now u where x: "x = (now, u)" by (cases x)
  from Cons.prems(3) have v: "lastTime s < now" and i: "inst_rate s now u = R"
    and c: "constant_rate R (ticker_rate s now u) xs"
    by (simp_all add: x)
  have p: "0 < emaBytesPerSec (ticker_rate s now u)"
    by (rule ema_step_pos [OF v Cons.prems(2) i Cons.prems(1)])
  have n: "emaBytesPerSec s \<noteq> 0" using Cons.prems(2) by simp
  have "\<bar>emaBytesPerSec (ticker_run (ticker_rate s now u) xs) - R\<bar> =
        (1 - SPEED_ALPHA) ^ length xs * \<bar>emaBytesPerSec (ticker_rate s now u) - R\<bar>"
    by (rule Cons.IH [OF Cons.prems(1) p c])
  also have "\<dots> = (1 - SPEED_ALPHA) ^ length xs * ((1 - SPEED_ALPHA) * \<bar>emaBytesPerSec s - R\<bar>)"
    by (simp only: ema_step_error [OF v n i])
  finally show ?case by (simp add: x)
qed

text \<open>
  Claim C5: on a valid tick that measures the rate \<open>R\<close> while the smoothed rate is
  seeded (not 0), the distance of the smoothed rate to \<open>R\<close> is multiplied by
  \<open>1 - alpha\<close>; so over a run of ticks that all measure the same \<open>R > 0\<close>, started
  from a positive smoothed rate, the distance after \<open>n\<close> ticks is \<open>(1 - alpha) ^ n\<close>
  times the initial one, and that factor tends to 0.
\<close>

theorem smoothed_rate_error_shrinks_geometrically:
  "(lastTime s < now \<and> emaBytesPerSec s \<noteq> 0 \<and> inst_rate s now u = R \<longrightarrow>
      \<bar>emaBytesPerSec (ticker_rate s now u) - R\<bar> = (1 - SPEED_ALPHA) * \<bar>emaBytesPerSec s - R\<bar>)
   \<and> (0 < R \<and> 0 < emaBytesPerSec s \<and> constant_rate R s xs \<longrightarrow>
      \<bar>emaBytesPerSec (ticker_run s xs) - R\<bar> =
        (1 - SPEED_ALPHA) ^ length xs * \<bar>emaBytesPerSec s - R\<bar>)
   \<and> (\<lambda>n. (1 - SPEED_ALPHA) ^ n) \<longlonglongrightarrow> 0"
proof (intro conjI impI)
  assume "lastTime s < now \<and> emaBytesPerSec s \<noteq> 0 \<and> inst_rate s now u = R"
  then show "\<bar>emaBytesPerSec (ticker_rate s now u) - R\<bar> = (1 - SPEED_ALPHA) * \<bar>emaBytesPerSec s - R\<bar>"
    using ema_step_error [of s now u R] by blast
next
  assume "0 < R \<and> 0 < emaBytesPerSec s \<and> constant_rate R s xs"
  then show "\<bar>emaBytesPerSec (ticker_run s xs) - R\<bar> =
        (1 - SPEED_ALPHA) ^ length xs * \<bar>emaBytesPerSec s - R\<bar>"
    using ema_run_error [of R s xs] by blast
next
  show "(\<lambda>n. (1 - SPEED_ALPHA) ^ n) \<longlonglongrightarrow> 0"
    by (rule LIMSEQ_realpow_zero) (simp_all add: SPEED_ALPHA_def)
qed

theorem smoothed_rate_error_shrinks_geometrically_witness:
  "lastTime \<lparr>lastBytes = 0, lastTime = 0, emaBytesPerSec = 500\<rparr> < 1000
   \<and> emaBytesPerSec \<lparr>lastBytes = 0, lastTime = 0, emaBytesPerSec = 500\<rparr> \<noteq> 0
   \<and> inst_rate \<lparr>lastBytes = 0, lastTime = 0, emaBytesPerSec = 500\<rparr> 1000 1000 = 1000
   \<and> (0::real) < 1000
   \<and> 0 < emaBytesPerSec \<lparr>lastBytes = 0, lastTime = 0, emaBytesPerSec = 500\<rparr>
   \<and> constant_rate 1000 \<lparr>lastBytes = 0, lastTime = 0, emaBytesPerSec = 500\<rparr>
        [(1000, 1000), (2000, 2000)]
   \<and> \<bar>emaBytesPerSec (ticker_rate \<lparr>lastBytes = 0, lastTime = 0, emaBytesPerSec = 500\<rparr>
         1000 1000) - 1000\<bar> = 400
   \<and> \<bar>emaBytesPerSec (ticker_run \<lparr>lastBytes = 0, lastTime = 0, emaBytesPerSec = 500\<rparr>
         [(1000, 1000), (2000, 2000)]) - 1000\<bar> = 320"
  using smoothed_rate_error_shrinks_geometrically [of "\<lparr>lastBytes = 0, lastTime = 0, emaBytesPerSec = 500\<rparr>" 1000 1000 1000
      "[(1000, 1000), (2000, 2000)]"]
  by (simp add: ticker_rate_def inst_rate_def SPEED_ALPHA_def power2_eq_square)

lemma valid_insts_nonneg:
  "sorted (lastBytes s # map snd xs) \<Longrightarrow> \<forall>r\<in>set (valid_insts s xs). 0 \<le> r"
proof (induction xs arbitrary: s)
  case Nil
  then show ?case by simp
next
  case (Cons x xs)
  obtain now u where x: "x = (now, u)" by (cases x)
  from Cons.prems have a: "lastBytes s \<le> u"
    and b: "sorted (lastBytes (ticker_rate s now u) # map snd xs)"
    unfolding x by (rule sorted_step)+
  have v: "valid_insts s (x # xs) =
      (if lastTime s < now then [inst_rate s now u] else []) @
      valid_insts (ticker_rate s now u) xs"
    unfolding x by (rule valid_insts.simps)
  from Cons.IH [OF b] inst_nonneg [OF _ a, of now] show ?case
    unfolding v by auto
qed

text \<open>
  Claim C10: over any run of ticks from the initial state that reads a byte counter
  which never decreases, every measured rate is non-negative and the smoothed rate is
  non-negative after every tick; once the smoothed rate is positive it is positive after
  every further tick; and the smoothed rate is 0 (the condition under which the next
  valid tick sets it directly) only if every rate measured so far was 0.
\<close>

theorem smoothed_rate_nonneg_and_stays_positive:
  "sorted (0 # map snd (xs @ ys)) \<longrightarrow>
     (\<forall>r\<in>set (valid_insts (estimator_init t0) xs). 0 \<le> r)
     \<and> 0 \<le> emaBytesPerSec (ticker_run (estimator_init t0) xs)
     \<and> (0 < emaBytesPerSec (ticker_run (estimator_init t0) xs) \<longrightarrow>
          0 < emaBytesPerSec (ticker_run (estimator_init t0) (xs @ ys)))
     \<and> (emaBytesPerSec (ticker_run (estimator_init t0) xs) = 0 \<longrightarrow>
          (\<forall>r\<in>set (valid_insts (estimator_init t0) xs). r = 0))"
proof
  let ?i = "estimator_init t0"
  assume A: "sorted (0 # map snd (xs @ ys))"
  have i0: "lastBytes ?i = 0" "emaBytesPerSec ?i = 0" by (simp_all add: estimator_init_def)
  have nn: "0 \<le> emaBytesPerSec ?i" by (simp add: i0)
  from A have all: "sorted (lastBytes ?i # map snd (xs @ ys))" by (simp add: i0)
  then have srt: "sorted (lastBytes ?i # map snd xs)" by (simp add: sorted_append)
  have rest: "sorted (lastBytes (ticker_run ?i xs) # map snd ys)"
    by (rule run_lastBytes [OF all])
  have 1: "\<forall>r\<in>set (valid_insts ?i xs). 0 \<le> r" by (rule valid_insts_nonneg [OF srt])
  have 2: "0 \<le> emaBytesPerSec (ticker_run ?i xs)" by (rule run_nonneg [OF srt nn])
  have 3: "0 < emaBytesPerSec (ticker_run ?i (xs @ ys))"
    if "0 < emaBytesPerSec (ticker_run ?i xs)"
    unfolding run_append by (rule run_pos [OF rest that])
  have 4: "\<forall>r\<in>set (valid_insts ?i xs). r = 0" if "emaBytesPerSec (ticker_run ?i xs) = 0"
    using run_zero [OF srt nn that] ..
  from 1 2 3 4 show "(\<forall>r\<in>set (valid_insts ?i xs). 0 \<le> r)
     \<and> 0 \<le> emaBytesPerSec (ticker_run ?i xs)
     \<and> (0 < emaBytesPerSec (ticker_run ?i xs) \<longrightarrow> 0 < emaBytesPerSec (ticker_run ?i (xs @ ys)))
     \<and> (emaBytesPerSec (ticker_run ?i xs) = 0 \<longrightarrow> (\<forall>r\<in>set (valid_insts ?i xs). r = 0))"
    by blast
qed

theorem smoothed_rate_nonneg_and_stays_positive_witness:
  "sorted (0 # map snd ([(1000::int, 0::int), (2000, 1000)] @ [(3000, 1000)]))
   \<and> 0 < emaBytesPerSec (ticker_run (estimator_init 0) [(1000, 0), (2000, 1000)])
   \<and> 0 < emaBytesPerSec
         (ticker_run (estimator_init 0) ([(1000, 0), (2000, 1000)] @ [(3000, 1000)]))"
proof -
  let ?xs = "[(1000::int, 0::int), (2000, 1000)]" and ?ys = "[(3000::int, 1000::int)]"
  let ?i = "estimator_init 0"
  have a: "sorted (0 # map snd (?xs @ ?ys))" by simp
  have p: "0 < emaBytesPerSec (ticker_run ?i ?xs)"
    by (simp add: estimator_init_def ticker_rate_def inst_rate_def)
  from smoothed_rate_nonneg_and_stays_positive [of ?xs ?ys 0] a p
  have q: "0 < emaBytesPerSec (ticker_run ?i (?xs @ ?ys))" by blast
  from a p q show ?thesis by blast
qed

section \<open>The status line\<close>

lemma barWidth_range: "5 \<le> ticker_barWidth out suffix \<and> ticker_barWidth out suffix \<le> 30"
  by (simp add: ticker_barWidth_def Let_def BAR_WIDTH_def)

lemma padLen_nat: "nat (max 0 (int a - int b)) = a - b"
  by (cases "b \<le> a") (simp_all add: max_def)

lemma too_long_iff: "0 < c \<Longrightarrow> int c - 1 < int n \<longleftrightarrow> c - 1 < n"
  by linarith

lemma write_tty:
  assumes "isTTY out" "columns out = Some c" "0 < c"
  shows "writeStatusLine out prev line =
     (StdoutWrite (clear_line @ take (c - 1) line @ replicate (prev - min (c - 1) (length line)) 32),
      min (c - 1) (length line))"
proof (cases "c - 1 < length line")
  case True
  then have "int c - 1 < int (length line)" using too_long_iff [OF assms(3)] by simp
  with True assms show ?thesis
    by (simp add: writeStatusLine_def Let_def columns_or_0_def min_def padLen_nat)
next
  case False
  then have "\<not> int c - 1 < int (length line)" using too_long_iff [OF assms(3)] by simp
  with False assms show ?thesis
    by (simp add: writeStatusLine_def Let_def columns_or_0_def min_def padLen_nat)
qed

lemma write_width:
  assumes "isTTY out" "columns out = Some c" "0 < c"
  shows "written_width (fst (writeStatusLine out prev line)) = max prev (min (c - 1) (length line))"
  unfolding write_tty [OF assms] by simp

text \<open>
  Where the previous render was shorter than the present width (the first render, or a
  width that did not shrink), what is written stays below the column count, and so
  does the length kept for the next tick.
\<close>

lemma render_fits_steady_width:
  assumes "isTTY out" "columns out = Some c" "0 < c" "prev < c"
    and "ticker_render out prev p suffix = Inr (w, n)"
  shows "written_width w < c \<and> n < c"
proof -
  from assms(5) obtain bar where
    w: "writeStatusLine out prev (bar @ str '' '' @ suffix) = (w, n)"
    by (auto simp: ticker_render_def split: sum.splits)
  have "written_width w = written_width (fst (writeStatusLine out prev (bar @ str '' '' @ suffix)))"
    using w by simp
  then have "written_width w = max prev (min (c - 1) (length (bar @ str '' '' @ suffix)))"
    by (simp only: write_width [OF assms(1-3)])
  moreover have "n = min (c - 1) (length (bar @ str '' '' @ suffix))"
    using w unfolding write_tty [OF assms(1-3)] by simp
  ultimately show ?thesis using assms(3,4) by auto
qed

text \<open>
  Claim C7 fails on the code when the terminal gets narrower between two ticks. A first
  render at 120 columns leaves \<open>lastRenderedLen = 119\<close>; the next render, at 80
  columns, cuts the line to 79 characters and then pads it with 40 spaces back to 119,
  more than the 80 columns of the terminal.
\<close>

theorem status_line_wider_than_terminal_after_shrink:
  "(case ticker_render \<lparr>isTTY = True, columns = Some 120\<rparr> 0 (1 / 2)
      (str ''[50.0%] [5.00 MiB/10.00 MiB] [Upload: 8.00 Mb/s = 0.95 MiB/s] [Estimated completion 00:00:05]'')
    of Inr (w, n) \<Rightarrow> written_width w = 119 \<and> n = 119 | Inl e \<Rightarrow> False)
   \<and> (case ticker_render \<lparr>isTTY = True, columns = Some 80\<rparr> 119 (1 / 2)
      (str ''[50.0%] [5.00 MiB/10.00 MiB] [Upload: 8.00 Mb/s = 0.95 MiB/s] [Estimated completion 00:00:05]'')
    of Inr (w, n) \<Rightarrow> written_width w = 119 \<and> 80 < written_width w \<and> n = 79 | Inl e \<Rightarrow> False)"
  by (simp add: ticker_render_def ticker_barWidth_def BAR_WIDTH_def makeBar_def Math_round_def
      js_repeat_def filledChar_def emptyChar_def writeStatusLine_def columns_or_0_def
      clear_line_def str_def Let_def)

end
